theory Spec2Isabelle
  imports Main "HOL-Library.Sublist"
begin

section \<open>JavaScript strings\<close>

text \<open>
  Strings are character lists. The helpers below are the JavaScript string methods the
  sources call, read on ASCII text: \<open>trimStart\<close> and \<open>trim\<close> strip the ASCII white space
  characters (TAB, LF, VT, FF, CR, SPACE) and \<open>toUpperCase\<close> maps \<open>a..z\<close> to \<open>A..Z\<close> and
  leaves every other character alone. The Unicode white space and case mappings of
  JavaScript outside ASCII are not part of this model.
\<close>

definition is_ws :: "char \<Rightarrow> bool" where
  "is_ws c = (of_char c \<in> {9, 10, 11, 12, 13, 32 :: nat})"

definition trimStart :: "string \<Rightarrow> string" where
  "trimStart s = dropWhile is_ws s"

definition trimEnd :: "string \<Rightarrow> string" where
  "trimEnd s = rev (dropWhile is_ws (rev s))"

definition trim :: "string \<Rightarrow> string" where
  "trim s = trimEnd (trimStart s)"

definition upper_char :: "char \<Rightarrow> char" where
  "upper_char c =
     (if 97 \<le> (of_char c :: nat) \<and> (of_char c :: nat) \<le> 122
      then char_of ((of_char c :: nat) - 32) else c)"

definition toUpperCase :: "string \<Rightarrow> string" where
  "toUpperCase s = map upper_char s"

text \<open>\<open>s.startsWith(p)\<close>.\<close>

definition startsWith :: "string \<Rightarrow> string \<Rightarrow> bool" where
  "startsWith s p = (take (length p) s = p)"

text \<open>\<open>xs.join(sep)\<close>: the empty array joins to the empty string.\<close>

fun join :: "string \<Rightarrow> string list \<Rightarrow> string" where
  "join sep [] = []"
| "join sep [x] = x"
| "join sep (x # y # ys) = x @ sep @ join sep (y # ys)"

text \<open>\<open>s || d\<close> on strings: the empty string is falsy.\<close>

definition or_else :: "string \<Rightarrow> string \<Rightarrow> string" where
  "or_else s d = (if s = [] then d else s)"

text \<open>\<open>s.split(c)\<close> for a one-character separator.\<close>

fun split_on :: "char \<Rightarrow> string \<Rightarrow> string list" where
  "split_on c [] = [[]]"
| "split_on c (x # xs) =
     (if x = c then [] # split_on c xs
      else (case split_on c xs of
              [] \<Rightarrow> [[x]]
            | y # ys \<Rightarrow> (x # y) # ys))"

text \<open>An \<open>Error\<close> object, by its message.\<close>

datatype error = Error (message: string)

section \<open>Path confinement (server.ts)\<close>

text \<open>
  \<open>path.sep\<close> and \<open>path.resolve\<close> belong to Node, not to the repository; they are
  modelled here for POSIX. \<open>normalizeString\<close> is Node's helper of that name on the
  segments of the path: empty segments and \<open>.\<close> are dropped, \<open>..\<close> removes the segment
  before it; above the root it is dropped for an absolute path and kept for a relative
  one. The accumulator holds the segments kept so far, last one first.
\<close>

definition sep :: string where
  "sep = ''/''"

fun normalizeString :: "bool \<Rightarrow> string list \<Rightarrow> string list \<Rightarrow> string list" where
  "normalizeString allowAboveRoot acc [] = rev acc"
| "normalizeString allowAboveRoot acc (s # ss) =
     (if s = [] \<or> s = ''.'' then normalizeString allowAboveRoot acc ss
      else if s = ''..'' then
        (case acc of
           [] \<Rightarrow> normalizeString allowAboveRoot (if allowAboveRoot then [''..''] else []) ss
         | t # ts \<Rightarrow>
             if t = ''..'' then
               normalizeString allowAboveRoot (if allowAboveRoot then ''..'' # acc else acc) ss
             else normalizeString allowAboveRoot ts ss)
      else normalizeString allowAboveRoot (s # acc) ss)"

text \<open>
  The scan of \<open>path.resolve\<close>: arguments are taken from the right (the list given here
  is already reversed, with the working directory last), empty ones are skipped, each is
  put in front of what was gathered, and the scan stops at the first absolute one.
\<close>

fun resolve_scan :: "string list \<Rightarrow> string \<Rightarrow> string \<times> bool" where
  "resolve_scan [] resolvedPath = (resolvedPath, False)"
| "resolve_scan (p # ps) resolvedPath =
     (if p = [] then resolve_scan ps resolvedPath
      else if hd p = CHR ''/'' then (p @ ''/'' @ resolvedPath, True)
      else resolve_scan ps (p @ ''/'' @ resolvedPath))"

definition path_resolve :: "string \<Rightarrow> string list \<Rightarrow> string" where
  "path_resolve cwd args =
     (case resolve_scan (rev args @ [cwd]) [] of
        (resolvedPath, resolvedAbsolute) \<Rightarrow>
          (let normalized =
                 join ''/'' (normalizeString (\<not> resolvedAbsolute) []
                               (split_on CHR ''/'' resolvedPath))
           in if resolvedAbsolute then ''/'' @ normalized
              else if normalized \<noteq> [] then normalized else ''.''))"

text \<open>
  \<open>const WORKSPACE_DIR = path.resolve(process.cwd(), "workspace")\<close>; the working
  directory of the process is the parameter \<open>cwd\<close>.
\<close>

definition WORKSPACE_DIR :: "string \<Rightarrow> string" where
  "WORKSPACE_DIR cwd = path_resolve cwd [cwd, ''workspace'']"

text \<open>
  \<open>safePath\<close>: the \<open>throw\<close> is the \<open>Inl\<close> result, with the message the source builds
  from the path as the user gave it.
\<close>

definition safePath :: "string \<Rightarrow> string \<Rightarrow> error + string" where
  "safePath cwd userPath =
     (let resolved = path_resolve cwd [WORKSPACE_DIR cwd, userPath]
      in if \<not> startsWith resolved (WORKSPACE_DIR cwd @ sep) \<and> resolved \<noteq> WORKSPACE_DIR cwd
         then Inl (Error (''Path escapes workspace: '' @ userPath))
         else Inr resolved)"

section \<open>Result envelopes\<close>

text \<open>
  A tool handler returns \<open>{ content: [{ type, text }], isError? }\<close>. On the wire the
  \<open>text\<close> of an item and the \<open>isError\<close> flag may be absent, which is \<open>None\<close> here; the
  server's handlers always give a text and set \<open>isError\<close> only on their error returns.
\<close>

record content_item =
  ctype :: string
  ctext :: "string option"

record envelope =
  content :: "content_item list"
  isError :: "bool option"

definition text_item :: "string \<Rightarrow> content_item" where
  "text_item s = \<lparr>ctype = ''text'', ctext = Some s\<rparr>"

text \<open>A number in a template literal, for the natural numbers: its decimal digits.\<close>

definition digit_char :: "nat \<Rightarrow> char" where
  "digit_char d = char_of (48 + d)"

function show_nat :: "nat \<Rightarrow> string" where
  "show_nat n = (if n < 10 then [digit_char n] else show_nat (n div 10) @ [digit_char (n mod 10)])"
  by pat_completeness auto
termination
  by (relation "measure id") auto

section \<open>The statement dispatcher of query_database (server.ts)\<close>

text \<open>
  The store is better-sqlite3, outside the repository. The handler uses it in two ways,
  \<open>db.prepare(sql).all()\<close> and \<open>db.prepare(sql).run()\<close>; each may throw, and each may
  change the database, so each is a function from the database state to a result and a
  new state. \<open>JSON.stringify\<close> at the two result types is a parameter as well.
\<close>

record run_result =
  changes :: int
  lastInsertRowid :: int

record ('db, 'row) sqlite =
  prepare_all :: "'db \<Rightarrow> string \<Rightarrow> (error + 'row list) \<times> 'db"
  prepare_run :: "'db \<Rightarrow> string \<Rightarrow> (error + run_result) \<times> 'db"
  stringify_rows :: "'row list \<Rightarrow> string"
  stringify_run :: "run_result \<Rightarrow> string"

text \<open>The test \<open>isRead\<close> of the handler.\<close>

definition isRead :: "string \<Rightarrow> bool" where
  "isRead sql =
     (let trimmed = toUpperCase (trimStart sql)
      in startsWith trimmed ''SELECT'' \<or> startsWith trimmed ''PRAGMA'' \<or>
         startsWith trimmed ''EXPLAIN'')"

text \<open>
  The statement classes of the specification, and the branch the handler takes: its
  \<open>if (isRead) ... else ...\<close> has two arms and no third.
\<close>

datatype statement_class = READ | MUTATE | SCRIPT

definition classify :: "string \<Rightarrow> statement_class" where
  "classify sql = (if isRead sql then READ else MUTATE)"

definition sql_error :: "error \<Rightarrow> envelope" where
  "sql_error err = \<lparr>content = [text_item (''SQL Error: '' @ message err)], isError = Some True\<rparr>"

definition query_database :: "('db, 'row) sqlite \<Rightarrow> 'db \<Rightarrow> string \<Rightarrow> envelope \<times> 'db" where
  "query_database B db sql =
     (if isRead sql then
        (case prepare_all B db sql of
           (Inl err, db') \<Rightarrow> (sql_error err, db')
         | (Inr rows, db') \<Rightarrow>
             (\<lparr>content = [text_item (stringify_rows B rows)], isError = None\<rparr>, db'))
      else
        (case prepare_run B db sql of
           (Inl err, db') \<Rightarrow> (sql_error err, db')
         | (Inr result, db') \<Rightarrow>
             (\<lparr>content = [text_item (stringify_run B result)], isError = None\<rparr>, db')))"

text \<open>
  The reading of "more than one statement" in the specification and in
  docs/architecture.md (\<open>contains ";" before end?\<close>): a semicolon in the trimmed text that is
  not its last character.
\<close>

definition separator_before_end :: "string \<Rightarrow> bool" where
  "separator_before_end sql = (CHR '';'' \<in> set (butlast (trim sql)))"

section \<open>fetch_url (server.ts)\<close>

text \<open>
  \<open>fetch\<close> is the platform's; it is a parameter, from the URL to the response or to the
  error it rejects with. Of a response the handler reads \<open>ok\<close>, \<open>status\<close>, \<open>statusText\<close>
  and \<open>await res.text()\<close>, which may reject too. Both rejections leave the handler as
  they are (\<open>Inl\<close>); the handler has no \<open>try\<close>.
\<close>

record http_response =
  ok :: bool
  status :: nat
  statusText :: string
  res_text :: "error + string"

definition truncation_marker :: string where
  "truncation_marker = CHR 0x0A # ''... (truncated)''"

definition fetch_url :: "(string \<Rightarrow> error + http_response) \<Rightarrow> string \<Rightarrow> error + envelope" where
  "fetch_url fetch url =
     (case fetch url of
        Inl err \<Rightarrow> Inl err
      | Inr res \<Rightarrow>
          if \<not> ok res then
            Inr \<lparr>content = [text_item (''HTTP '' @ show_nat (status res) @ '' '' @ statusText res)],
                 isError = Some True\<rparr>
          else
            (case res_text res of
               Inl err \<Rightarrow> Inl err
             | Inr body \<Rightarrow>
                 Inr \<lparr>content =
                        [text_item (if length body > 5000
                                    then take 5000 body @ truncation_marker else body)],
                      isError = None\<rparr>))"

section \<open>A concrete store and the segments of a path\<close>


text \<open>
  A segment of a resolved path: a name that is not empty, not \<open>.\<close>, not \<open>..\<close> and holds
  no separator.
\<close>

definition canonical_segment :: "string \<Rightarrow> bool" where
  "canonical_segment s = (s \<noteq> [] \<and> s \<noteq> ''.'' \<and> s \<noteq> ''..'' \<and> CHR ''/'' \<notin> set s)"

section \<open>The agent loop (client.ts)\<close>

text \<open>
  The content blocks of a model response: text, a tool request \<open>{id, name, input}\<close>, or a
  block of another type. A response is its blocks and its \<open>stop_reason\<close>, a string or
  \<open>null\<close>. The type \<open>'j\<close> is that of the tool arguments, which the loop only passes on.
\<close>

record 'j tool_use =
  tool_id :: string
  tool_name :: string
  tool_input :: 'j

datatype 'j content_block = TextBlock string | ToolUseBlock "'j tool_use" | OtherBlock

record 'j response =
  r_content :: "'j content_block list"
  stop_reason :: "string option"

text \<open>One entry of the \<open>toolResults\<close> array.\<close>

record tool_result =
  tool_use_id :: string
  tr_content :: string
  is_error :: bool

text \<open>
  The three shapes of message the loop puts into \<open>messages\<close>: the user's query, an
  assistant turn holding the response's content as it came, and a user message holding
  the tool results.
\<close>

datatype 'j message =
    UserText string
  | AssistantTurn "'j content_block list"
  | ToolResults "tool_result list"

text \<open>
  The two outside calls of the loop. \<open>anthropic.messages.create\<close> (the oracle) gets the
  messages, \<open>mcpClient.callTool\<close> gets a name and arguments. Both are awaited, both may
  reject, and both act on the world outside, so each takes the state \<open>'w\<close> of that world
  and returns the next one. The system prompt and the tool list are the same at every
  call and are left inside the oracle.

  The loop is given a record of the calls it makes, in the order it makes them; the
  source logs a line at each of them.
\<close>

type_synonym ('j, 'w) oracle_fn = "'w \<Rightarrow> 'j message list \<Rightarrow> (error + 'j response) \<times> 'w"

type_synonym ('j, 'w) invoker = "'w \<Rightarrow> string \<Rightarrow> 'j \<Rightarrow> (error + envelope) \<times> 'w"

datatype 'j event = OracleCall "'j message list" | ToolCall "'j tool_use"

fun is_oracle_call :: "'j event \<Rightarrow> bool" where
  "is_oracle_call (OracleCall ms) = True"
| "is_oracle_call (ToolCall t) = False"

definition oracle_calls :: "'j event list \<Rightarrow> nat" where
  "oracle_calls evs = length (filter is_oracle_call evs)"

definition MAX_ITERATIONS :: nat where
  "MAX_ITERATIONS = 10"

definition newline :: string where
  "newline = [CHR 0x0A]"

text \<open>\<open>response.content.filter(b => b.type === "text").map(b => b.text)\<close>\<close>

fun textBlocks :: "'j content_block list \<Rightarrow> string list" where
  "textBlocks [] = []"
| "textBlocks (TextBlock t # bs) = t # textBlocks bs"
| "textBlocks (b # bs) = textBlocks bs"

text \<open>\<open>response.content.filter(b => b.type === "tool_use")\<close>\<close>

fun toolUseBlocks :: "'j content_block list \<Rightarrow> 'j tool_use list" where
  "toolUseBlocks [] = []"
| "toolUseBlocks (ToolUseBlock t # bs) = t # toolUseBlocks bs"
| "toolUseBlocks (b # bs) = toolUseBlocks bs"

text \<open>The text of a tool's result: its text items, a missing text read as empty, joined by newlines.\<close>

definition result_text :: "envelope \<Rightarrow> string" where
  "result_text result =
     join newline
       (map (\<lambda>c. case ctext c of None \<Rightarrow> [] | Some t \<Rightarrow> t)
          (filter (\<lambda>c. ctype c = ''text'') (content result)))"

text \<open>
  \<open>for (const toolUse of toolUseBlocks) { ... toolResults.push(...) }\<close>: one call after
  the other, each from the world the one before left; a rejected call ends the loop and
  the query with it.
\<close>

fun call_tools ::
  "('j, 'w) invoker \<Rightarrow> 'w \<Rightarrow> 'j tool_use list \<Rightarrow> tool_result list \<Rightarrow>
     (error + tool_result list) \<times> 'w \<times> 'j event list" where
  "call_tools callTool w [] toolResults = (Inr toolResults, w, [])"
| "call_tools callTool w (toolUse # rest) toolResults =
     (case callTool w (tool_name toolUse) (tool_input toolUse) of
        (Inl err, w') \<Rightarrow> (Inl err, w', [ToolCall toolUse])
      | (Inr result, w') \<Rightarrow>
          (case call_tools callTool w' rest
                  (toolResults @
                     [\<lparr>tool_use_id = tool_id toolUse, tr_content = result_text result,
                       is_error = (isError result = Some True)\<rparr>]) of
             (r, w'', calls) \<Rightarrow> (r, w'', ToolCall toolUse # calls)))"

text \<open>
  \<open>for (let i = 0; i < MAX_ITERATIONS; i++) { ... }\<close> and the \<open>return\<close> after it. The
  result is what \<open>processQuery\<close> returns (\<open>Inr\<close>) or rejects with (\<open>Inl\<close>), the world it
  leaves, and the calls made.
\<close>

function processQuery_loop ::
  "('j, 'w) oracle_fn \<Rightarrow> ('j, 'w) invoker \<Rightarrow> nat \<Rightarrow> 'j message list \<Rightarrow> 'w \<Rightarrow>
     (error + string) \<times> 'w \<times> 'j event list" where
  "processQuery_loop oracle callTool i messages w =
     (if i < MAX_ITERATIONS then
        (case oracle w messages of
           (Inl err, w1) \<Rightarrow> (Inl err, w1, [OracleCall messages])
         | (Inr response, w1) \<Rightarrow>
             (let textBlocks = textBlocks (r_content response) in
              if stop_reason response = Some ''end_turn'' then
                (Inr (or_else (join newline textBlocks) ''(no text response)''), w1,
                 [OracleCall messages])
              else if stop_reason response = Some ''tool_use'' then
                (case call_tools callTool w1 (toolUseBlocks (r_content response)) [] of
                   (Inl err, w2, calls) \<Rightarrow> (Inl err, w2, OracleCall messages # calls)
                 | (Inr toolResults, w2, calls) \<Rightarrow>
                     (case processQuery_loop oracle callTool (i + 1)
                             (messages @
                                [AssistantTurn (r_content response), ToolResults toolResults])
                             w2 of
                        (res, w3, evs) \<Rightarrow> (res, w3, OracleCall messages # calls @ evs)))
              else
                (Inr (or_else (join newline textBlocks) ''(unexpected stop)''), w1,
                 [OracleCall messages])))
      else (Inr ''(reached max iterations)'', w, []))"
  by pat_completeness auto
termination
  by (relation "measure (\<lambda>(oracle, callTool, i, messages, w). MAX_ITERATIONS - i)") auto

definition processQuery ::
  "('j, 'w) oracle_fn \<Rightarrow> ('j, 'w) invoker \<Rightarrow> 'w \<Rightarrow> string \<Rightarrow>
     (error + string) \<times> 'w \<times> 'j event list" where
  "processQuery oracle callTool w userQuery =
     processQuery_loop oracle callTool 0 [UserText userQuery] w"

text \<open>
  A conversation after the user's query is well paired when it is a sequence of
  assistant turns, each followed at once by one tool-results message whose results
  carry the ids of the turn's tool requests, one for one and in their order.
\<close>

fun paired :: "'j message list \<Rightarrow> bool" where
  "paired [] = True"
| "paired (AssistantTurn c # ToolResults rs # ms) =
     (map tool_use_id rs = map tool_id (toolUseBlocks c) \<and> paired ms)"
| "paired ms = False"

text \<open>
  Oracles and tools for concrete runs. \<open>always\<close> answers every call with the same
  response; \<open>dune_oracle\<close> is the oracle of the specification's scenario, asking for one
  insert and ending once the conversation holds its result; \<open>dune_tool\<close> is the backend
  that reports one changed row with identifier 9, the world counting the calls made;
  \<open>no_tool\<close> rejects every call.
\<close>

definition always :: "'j response \<Rightarrow> ('j, 'w) oracle_fn" where
  "always r = (\<lambda>w ms. (Inr r, w))"

definition dune_request :: "string tool_use" where
  "dune_request =
     \<lparr>tool_id = ''toolu_1'', tool_name = ''query_database'',
      tool_input = ''INSERT INTO books(title) VALUES ('' @ [CHR 0x27] @ ''Dune'' @ [CHR 0x27] @ '')''\<rparr>"

definition dune_oracle :: "(string, nat) oracle_fn" where
  "dune_oracle =
     (\<lambda>w ms. if length ms = 1
              then (Inr \<lparr>r_content = [ToolUseBlock dune_request], stop_reason = Some ''tool_use''\<rparr>, w)
              else (Inr \<lparr>r_content = [TextBlock ''Added Dune.''], stop_reason = Some ''end_turn''\<rparr>, w))"

definition dune_tool :: "(string, nat) invoker" where
  "dune_tool =
     (\<lambda>w name input.
        (Inr \<lparr>content = [text_item ''changes 1 lastInsertRowid 9''], isError = None\<rparr>, Suc w))"

definition no_tool :: "('j, 'w) invoker" where
  "no_tool = (\<lambda>w name input. (Inl (Error ''no tools''), w))"

text \<open>An oracle that asks for the same two tools at every call.\<close>

definition two_requests :: "string response" where
  "two_requests =
     \<lparr>r_content =
        [TextBlock ''working'',
         ToolUseBlock \<lparr>tool_id = ''a'', tool_name = ''get_weather'', tool_input = ''London''\<rparr>,
         ToolUseBlock \<lparr>tool_id = ''b'', tool_name = ''get_weather'', tool_input = ''Paris''\<rparr>],
      stop_reason = Some ''tool_use''\<rparr>"

text \<open>
  Further responses and oracles for concrete runs: a final answer in two text blocks, an
  answer without text that ends the turn, the same cut off by the token limit, and an
  oracle that asks for the two tools once and then answers.
\<close>

definition two_texts :: "string response" where
  "two_texts = \<lparr>r_content = [TextBlock ''a'', TextBlock ''b''], stop_reason = Some ''end_turn''\<rparr>"

definition empty_end :: "string response" where
  "empty_end = \<lparr>r_content = [], stop_reason = Some ''end_turn''\<rparr>"

definition empty_cut :: "string response" where
  "empty_cut = \<lparr>r_content = [], stop_reason = Some ''max_tokens''\<rparr>"

definition weather_oracle :: "(string, nat) oracle_fn" where
  "weather_oracle =
     (\<lambda>w ms. if length ms = 1 then (Inr two_requests, w)
              else (Inr \<lparr>r_content = [TextBlock ''done''], stop_reason = Some ''end_turn''\<rparr>, w))"

text \<open>A tool whose answer is the number of calls made before it.\<close>

definition counting_tool :: "(string, nat) invoker" where
  "counting_tool =
     (\<lambda>w name input. (Inr \<lparr>content = [text_item (show_nat w)], isError = None\<rparr>, Suc w))"

section \<open>Seeding the database (seed.ts)\<close>

text \<open>
  The database as far as \<open>seedDatabase\<close> touches it: the tables \<open>books\<close> and \<open>users\<close>
  with the columns the source declares, each absent (\<open>None\<close>) or holding its rows, and
  for each the entry of \<open>sqlite_sequence\<close> that \<open>AUTOINCREMENT\<close> keeps, absent until the
  first insert. A table of that name with other columns is outside this type.
\<close>

record book_row =
  book_id :: int
  title :: string
  author :: string
  year :: "int option"
  genre :: "string option"

record user_row =
  user_id :: int
  name :: string
  email :: string
  favorite_genre :: "string option"

record database =
  books :: "book_row list option"
  users :: "user_row list option"
  books_seq :: "int option"
  users_seq :: "int option"





















section \<open>run_code (server.ts)\<close>






















section \<open>Properties of the path guard\<close>

lemma startsWith_prefix: "startsWith s p = prefix p s"
proof
  assume a: "startsWith s p"
  have "s = take (length p) s @ drop (length p) s"
    by simp
  with a have "s = p @ drop (length p) s"
    by (simp add: startsWith_def)
  then show "prefix p s"
    by (rule prefixI)
next
  assume "prefix p s"
  then obtain zs where "s = p @ zs"
    by (auto simp: prefix_def)
  then show "startsWith s p"
    by (simp add: startsWith_def)
qed

lemma split_on_nonempty: "split_on c xs \<noteq> []"
  by (induction xs) (auto split: list.splits)

lemma split_on_no_sep: "s \<in> set (split_on c xs) \<Longrightarrow> c \<notin> set s"
proof (induction xs arbitrary: s)
  case Nil
  then show ?case by simp
next
  case (Cons x xs)
  show ?case
  proof (cases "x = c")
    case True
    with Cons show ?thesis by auto
  next
    case False
    obtain y ys where y: "split_on c xs = y # ys"
      using split_on_nonempty [of c xs] by (cases "split_on c xs") auto
    with Cons.prems False have "s = x # y \<or> s \<in> set ys"
      by auto
    with Cons.IH y False show ?thesis
      by auto
  qed
qed

lemma split_on_append: "split_on c (a @ c # b) = split_on c a @ split_on c b"
proof (induction a)
  case Nil
  then show ?case by simp
next
  case (Cons x a)
  obtain y ys where y: "split_on c a = y # ys"
    using split_on_nonempty [of c a] by (cases "split_on c a") auto
  with Cons show ?case
    by (auto split: list.splits)
qed

lemma split_on_single: "c \<notin> set s \<Longrightarrow> split_on c s = [s]"
  by (induction s) auto

lemma split_on_join:
  "segs \<noteq> [] \<Longrightarrow> \<forall>s \<in> set segs. c \<notin> set s \<Longrightarrow> split_on c (join [c] segs) = segs"
proof (induction "[c]" segs rule: join.induct)
  case 1
  then show ?case by simp
next
  case (2 x)
  then show ?case by (simp add: split_on_single)
next
  case (3 x y ys)
  then show ?case
    by (simp add: split_on_append split_on_single)
qed

lemma join_append:
  "xs \<noteq> [] \<Longrightarrow> ys \<noteq> [] \<Longrightarrow> join sp (xs @ ys) = join sp xs @ sp @ join sp ys"
proof (induction sp xs rule: join.induct)
  case (1 sp)
  then show ?case by simp
next
  case (2 sp x)
  then show ?case by (cases ys) simp_all
next
  case (3 sp x y zs)
  then show ?case by simp
qed

lemma normalizeString_canonical:
  "\<forall>s \<in> set acc. canonical_segment s \<Longrightarrow> \<forall>s \<in> set segs. CHR ''/'' \<notin> set s \<Longrightarrow>
     \<forall>s \<in> set (normalizeString False acc segs). canonical_segment s"
proof (induction segs arbitrary: acc)
  case Nil
  then show ?case by simp
next
  case (Cons s segs)
  have ih: "\<forall>x \<in> set (normalizeString False acc' segs). canonical_segment x"
    if "\<forall>x \<in> set acc'. canonical_segment x" for acc'
    using Cons.IH [OF that] Cons.prems(2) by simp
  show ?case
  proof (cases "s = [] \<or> s = ''.''")
    case True
    with ih [OF Cons.prems(1)] show ?thesis by auto
  next
    case ne: False
    show ?thesis
    proof (cases "s = ''..''")
      case True
      show ?thesis
      proof (cases acc)
        case Nil
        with True ih [of "[]"] show ?thesis by simp
      next
        case (Cons t ts)
        with Cons.prems(1) have t: "t \<noteq> ''..''" and ts: "\<forall>x \<in> set ts. canonical_segment x"
          by (auto simp: canonical_segment_def)
        from True Cons t ih [OF ts] show ?thesis
          by simp
      qed
    next
      case False
      with ne Cons.prems have "\<forall>x \<in> set (s # acc). canonical_segment x"
        by (auto simp: canonical_segment_def)
      from ih [OF this] False ne show ?thesis
        by simp
    qed
  qed
qed

lemma resolve_scan_absolute:
  "ps \<noteq> [] \<Longrightarrow> last ps \<noteq> [] \<Longrightarrow> hd (last ps) = CHR ''/'' \<Longrightarrow> snd (resolve_scan ps acc)"
proof (induction ps arbitrary: acc)
  case Nil
  then show ?case by simp
next
  case (Cons p ps)
  then show ?case
    by (cases ps) auto
qed

lemma path_resolve_canonical:
  assumes "cwd \<noteq> []" "hd cwd = CHR ''/''"
  shows "\<exists>N. path_resolve cwd args = ''/'' @ join ''/'' N \<and> (\<forall>s \<in> set N. canonical_segment s)"
proof -
  obtain r a where s: "resolve_scan (rev args @ [cwd]) [] = (r, a)"
    by (cases "resolve_scan (rev args @ [cwd]) []")
  from resolve_scan_absolute [of "rev args @ [cwd]" "[]"] assms s have a: "a"
    by simp
  let ?N = "normalizeString False [] (split_on CHR ''/'' r)"
  from normalizeString_canonical [of "[]" "split_on CHR ''/'' r"] split_on_no_sep [of _ "CHR ''/''" r]
  have "\<forall>s \<in> set ?N. canonical_segment s"
    by auto
  moreover from s a have "path_resolve cwd args = ''/'' @ join ''/'' ?N"
    by (simp add: path_resolve_def)
  ultimately show ?thesis
    by blast
qed


lemma join_no_leading_sep:
  "\<forall>s \<in> set N. canonical_segment s \<Longrightarrow> join ''/'' N \<noteq> CHR ''/'' # rest"
proof (cases N)
  case Nil
  then show ?thesis by simp
next
  case (Cons x xs)
  assume "\<forall>s \<in> set N. canonical_segment s"
  with Cons obtain c cs where x: "x = c # cs" "c \<noteq> CHR ''/''"
    by (cases x) (auto simp: canonical_segment_def)
  with Cons show ?thesis
    by (cases xs) simp_all
qed

lemma canonical_prefix_segments:
  assumes N: "\<forall>s \<in> set N. canonical_segment s" and R: "\<forall>s \<in> set NR. canonical_segment s"
    and p: "prefix ((''/'' @ join ''/'' NR) @ ''/'') (''/'' @ join ''/'' N)"
  shows "\<exists>segs. segs \<noteq> [] \<and> N = NR @ segs"
proof -
  from p obtain rest where e: "join ''/'' N = join ''/'' NR @ CHR ''/'' # rest"
    by (auto simp: prefix_def)
  show ?thesis
  proof (cases NR)
    case Nil
    with e join_no_leading_sep [OF N, of rest] show ?thesis
      by simp
  next
    case (Cons y ys)
    from e have ne: "N \<noteq> []"
      by (cases N) auto
    from N have "\<forall>s \<in> set N. CHR ''/'' \<notin> set s"
      by (simp add: canonical_segment_def)
    from split_on_join [OF ne this] have "split_on CHR ''/'' (join ''/'' N) = N" .
    moreover from R have "\<forall>s \<in> set NR. CHR ''/'' \<notin> set s"
      by (simp add: canonical_segment_def)
    with Cons split_on_join [of NR "CHR ''/''"] have "split_on CHR ''/'' (join ''/'' NR) = NR"
      by simp
    ultimately have "N = NR @ split_on CHR ''/'' rest"
      using e by (simp add: split_on_append)
    with split_on_nonempty [of "CHR ''/''" rest] show ?thesis
      by blast
  qed
qed

lemma safePath_descendant:
  assumes c: "cwd \<noteq> []" "hd cwd = CHR ''/''" and a: "safePath cwd P = Inr p"
  shows "p = WORKSPACE_DIR cwd \<or>
         (\<exists>segs. segs \<noteq> [] \<and> (\<forall>s \<in> set segs. canonical_segment s) \<and>
                 p = WORKSPACE_DIR cwd @ sep @ join sep segs)"
proof -
  from path_resolve_canonical [OF c, of "[cwd, ''workspace'']"] obtain NR where
    R: "WORKSPACE_DIR cwd = ''/'' @ join ''/'' NR" "\<forall>s \<in> set NR. canonical_segment s"
    by (auto simp: WORKSPACE_DIR_def)
  from path_resolve_canonical [OF c, of "[WORKSPACE_DIR cwd, P]"] obtain N where
    N: "path_resolve cwd [WORKSPACE_DIR cwd, P] = ''/'' @ join ''/'' N"
       "\<forall>s \<in> set N. canonical_segment s"
    by auto
  from a have p: "p = path_resolve cwd [WORKSPACE_DIR cwd, P]"
    and ok: "p = WORKSPACE_DIR cwd \<or> prefix (WORKSPACE_DIR cwd @ sep) p"
    by (auto simp: safePath_def Let_def startsWith_prefix split: if_splits)
  from ok show ?thesis
  proof
    assume "p = WORKSPACE_DIR cwd"
    then show ?thesis by simp
  next
    assume "prefix (WORKSPACE_DIR cwd @ sep) p"
    with p N(1) R(1) have "prefix ((''/'' @ join ''/'' NR) @ ''/'') (''/'' @ join ''/'' N)"
      by (simp add: sep_def)
    from canonical_prefix_segments [OF N(2) R(2) this] obtain segs where
      s: "segs \<noteq> []" "N = NR @ segs"
      by blast
    have nr: "NR \<noteq> []"
    proof
      assume "NR = []"
      with \<open>prefix ((''/'' @ join ''/'' NR) @ ''/'') (''/'' @ join ''/'' N)\<close>
      obtain rest where "join ''/'' N = CHR ''/'' # rest"
        by (auto simp: prefix_def)
      with join_no_leading_sep [OF N(2), of rest] show False
        by simp
    qed
    from s N(2) have "\<forall>x \<in> set segs. canonical_segment x"
      by simp
    moreover from p N(1) R(1) s nr have "p = WORKSPACE_DIR cwd @ sep @ join sep segs"
      by (simp add: join_append sep_def)
    ultimately show ?thesis
      using s(1) by blast
  qed
qed

text \<open>
  Claim C1. For the workspace root \<open>R\<close> of any working directory and any user path
  \<open>P\<close>, the guard accepts exactly when the resolution of \<open>P\<close> against \<open>R\<close> is \<open>R\<close> itself or
  begins with \<open>R\<close> followed by the path separator. When it accepts it returns that fully
  resolved path and nothing else; in every other case it rejects with an error that
  carries \<open>P\<close> as given. For an absolute working directory an accepted path is \<open>R\<close> or
  \<open>R\<close>, a separator, and one or more names joined by separators, none of them empty,
  \<open>.\<close> or \<open>..\<close>: a strict descendant of \<open>R\<close>.
\<close>

theorem safePath_accepts_iff:
  "((\<exists>p. safePath cwd P = Inr p) \<longleftrightarrow>
      (path_resolve cwd [WORKSPACE_DIR cwd, P] = WORKSPACE_DIR cwd \<or>
       prefix (WORKSPACE_DIR cwd @ sep) (path_resolve cwd [WORKSPACE_DIR cwd, P]))) \<and>
   (\<forall>p. safePath cwd P = Inr p \<longrightarrow> p = path_resolve cwd [WORKSPACE_DIR cwd, P]) \<and>
   ((\<forall>p. safePath cwd P \<noteq> Inr p) \<longrightarrow>
      safePath cwd P = Inl (Error (''Path escapes workspace: '' @ P))) \<and>
   (\<forall>p. cwd \<noteq> [] \<and> hd cwd = CHR ''/'' \<and> safePath cwd P = Inr p \<longrightarrow>
      p = WORKSPACE_DIR cwd \<or>
      (\<exists>segs. segs \<noteq> [] \<and> (\<forall>s \<in> set segs. canonical_segment s) \<and>
              p = WORKSPACE_DIR cwd @ sep @ join sep segs))"
proof -
  have a: "((\<exists>p. safePath cwd P = Inr p) \<longleftrightarrow>
      (path_resolve cwd [WORKSPACE_DIR cwd, P] = WORKSPACE_DIR cwd \<or>
       prefix (WORKSPACE_DIR cwd @ sep) (path_resolve cwd [WORKSPACE_DIR cwd, P]))) \<and>
   (\<forall>p. safePath cwd P = Inr p \<longrightarrow> p = path_resolve cwd [WORKSPACE_DIR cwd, P]) \<and>
   ((\<forall>p. safePath cwd P \<noteq> Inr p) \<longrightarrow>
      safePath cwd P = Inl (Error (''Path escapes workspace: '' @ P)))"
    by (auto simp: safePath_def Let_def startsWith_prefix)
  have b: "\<forall>p. cwd \<noteq> [] \<and> hd cwd = CHR ''/'' \<and> safePath cwd P = Inr p \<longrightarrow>
      p = WORKSPACE_DIR cwd \<or>
      (\<exists>segs. segs \<noteq> [] \<and> (\<forall>s \<in> set segs. canonical_segment s) \<and>
              p = WORKSPACE_DIR cwd @ sep @ join sep segs)"
    using safePath_descendant [of cwd P] by blast
  show ?thesis
    by (rule conjI [OF conjunct1 [OF a]
                conjI [OF conjunct1 [OF conjunct2 [OF a]]
                  conjI [OF conjunct2 [OF conjunct2 [OF a]] b]]])
qed

theorem safePath_accepts_iff_witness:
  "safePath ''/a'' ''../workspace2'' = Inl (Error ''Path escapes workspace: ../workspace2'') \<and>
   safePath ''/a'' ''sub/a.txt'' = Inr ''/a/workspace/sub/a.txt'' \<and>
   (''/a/workspace/sub/a.txt'' = WORKSPACE_DIR ''/a'' \<or>
    (\<exists>segs. segs \<noteq> [] \<and> (\<forall>s \<in> set segs. canonical_segment s) \<and>
            ''/a/workspace/sub/a.txt'' = WORKSPACE_DIR ''/a'' @ sep @ join sep segs))"
proof -
  have w: "WORKSPACE_DIR ''/a'' = ''/a/workspace''"
    by code_simp
  have r1: "path_resolve ''/a'' [''/a/workspace'', ''../workspace2''] = ''/a/workspace2''"
    by code_simp
  have r2: "path_resolve ''/a'' [''/a/workspace'', ''sub/a.txt''] = ''/a/workspace/sub/a.txt''"
    by code_simp
  have rej: "safePath ''/a'' ''../workspace2'' =
               Inl (Error ''Path escapes workspace: ../workspace2'')"
    using safePath_accepts_iff [of "''/a''" "''../workspace2''"]
    by (simp add: w r1 sep_def)
  have acc: "safePath ''/a'' ''sub/a.txt'' = Inr ''/a/workspace/sub/a.txt''"
    using safePath_accepts_iff [of "''/a''" "''sub/a.txt''"]
    by (auto simp: w r2 sep_def)
  have h: "''/a'' \<noteq> [] \<and> hd ''/a'' = CHR ''/'' \<and>
           safePath ''/a'' ''sub/a.txt'' = Inr ''/a/workspace/sub/a.txt''"
    using acc by simp
  note d = mp [OF spec [OF conjunct2 [OF conjunct2 [OF conjunct2
                 [OF safePath_accepts_iff [of "''/a''" "''sub/a.txt''"]]]]] h]
  show ?thesis
    by (rule conjI [OF rej conjI [OF acc d]])
qed

section \<open>Properties of the statement dispatcher\<close>

declare show_nat.simps [simp del]






text \<open>
  Claim C2, evaluated on the code. The text \<open>INSERT INTO t VALUES(1); SELECT 1\<close> has a
  statement separator before its end, and the handler does not treat it as a script: it
  takes the affected-row arm, handing the whole text to \<open>db.prepare(sql).run()\<close>, and
  what it returns is that call's result or its error.
\<close>

theorem query_database_script_input:
  "separator_before_end ''INSERT INTO t VALUES(1); SELECT 1'' \<and>
   classify ''INSERT INTO t VALUES(1); SELECT 1'' = MUTATE \<and>
   query_database B db ''INSERT INTO t VALUES(1); SELECT 1'' =
     (case prepare_run B db ''INSERT INTO t VALUES(1); SELECT 1'' of
        (Inl err, db') \<Rightarrow> (sql_error err, db')
      | (Inr result, db') \<Rightarrow>
          (\<lparr>content = [text_item (stringify_run B result)], isError = None\<rparr>, db'))"
proof -
  have s: "separator_before_end ''INSERT INTO t VALUES(1); SELECT 1''"
    by code_simp
  have r: "\<not> isRead ''INSERT INTO t VALUES(1); SELECT 1''"
    by code_simp
  show ?thesis
    using s r by (simp add: classify_def query_database_def)
qed



section \<open>Properties of fetch_url\<close>

text \<open>
  Claim C10. When the response is ok and its body can be read, the handler returns one
  text item: the body itself when it has at most 5000 characters, and otherwise its
  first 5000 characters followed by the truncation marker. A response that is not ok
  makes the handler return, not throw: an envelope with \<open>isError\<close> set whose text is
  \<open>HTTP\<close>, the status code in decimal and the status text.
\<close>

theorem fetch_url_truncates:
  "(fetch url = Inr res \<and> ok res \<and> res_text res = Inr body \<and> length body \<le> 5000 \<longrightarrow>
      fetch_url fetch url = Inr \<lparr>content = [text_item body], isError = None\<rparr>) \<and>
   (fetch url = Inr res \<and> ok res \<and> res_text res = Inr body \<and> length body > 5000 \<longrightarrow>
      fetch_url fetch url =
        Inr \<lparr>content = [text_item (take 5000 body @ truncation_marker)], isError = None\<rparr>) \<and>
   (fetch url = Inr res \<and> \<not> ok res \<longrightarrow>
      fetch_url fetch url =
        Inr \<lparr>content = [text_item (''HTTP '' @ show_nat (status res) @ '' '' @ statusText res)],
             isError = Some True\<rparr>)"
  by (simp add: fetch_url_def)

theorem fetch_url_truncates_witness:
  "fetch_url (\<lambda>u. Inr \<lparr>ok = True, status = 200, statusText = ''OK'', res_text = Inr ''hello''\<rparr>)
     ''http://x'' = Inr \<lparr>content = [text_item ''hello''], isError = None\<rparr> \<and>
   fetch_url (\<lambda>u. Inr \<lparr>ok = True, status = 200, statusText = ''OK'',
                         res_text = Inr (replicate 5001 CHR ''a'')\<rparr>) ''http://x'' =
     Inr \<lparr>content = [text_item (replicate 5000 CHR ''a'' @ CHR 0x0A # ''... (truncated)'')],
          isError = None\<rparr> \<and>
   fetch_url (\<lambda>u. Inr \<lparr>ok = False, status = 404, statusText = ''Not Found'',
                         res_text = Inr ''''\<rparr>) ''http://x'' =
     Inr \<lparr>content = [text_item ''HTTP 404 Not Found''], isError = Some True\<rparr>"
proof -
  have n: "show_nat 404 = ''404''"
    by code_simp
  have "fetch_url (\<lambda>u. Inr \<lparr>ok = True, status = 200, statusText = ''OK'', res_text = Inr ''hello''\<rparr>)
     ''http://x'' = Inr \<lparr>content = [text_item ''hello''], isError = None\<rparr>"
    using fetch_url_truncates
      [of "\<lambda>u. Inr \<lparr>ok = True, status = 200, statusText = ''OK'', res_text = Inr ''hello''\<rparr>"
          "''http://x''"
          "\<lparr>ok = True, status = 200, statusText = ''OK'', res_text = Inr ''hello''\<rparr>" "''hello''"]
    by simp
  moreover have "fetch_url (\<lambda>u. Inr \<lparr>ok = True, status = 200, statusText = ''OK'',
                         res_text = Inr (replicate 5001 CHR ''a'')\<rparr>) ''http://x'' =
     Inr \<lparr>content = [text_item (replicate 5000 CHR ''a'' @ CHR 0x0A # ''... (truncated)'')],
          isError = None\<rparr>"
    using fetch_url_truncates
      [of "\<lambda>u. Inr \<lparr>ok = True, status = 200, statusText = ''OK'',
                      res_text = Inr (replicate 5001 CHR ''a'')\<rparr>"
          "''http://x''"
          "\<lparr>ok = True, status = 200, statusText = ''OK'', res_text = Inr (replicate 5001 CHR ''a'')\<rparr>"
          "replicate 5001 CHR ''a''"]
    by (simp add: truncation_marker_def)
  moreover have "fetch_url (\<lambda>u. Inr \<lparr>ok = False, status = 404, statusText = ''Not Found'',
                         res_text = Inr ''''\<rparr>) ''http://x'' =
     Inr \<lparr>content = [text_item ''HTTP 404 Not Found''], isError = Some True\<rparr>"
    using fetch_url_truncates
      [of "\<lambda>u. Inr \<lparr>ok = False, status = 404, statusText = ''Not Found'', res_text = Inr ''''\<rparr>"
          "''http://x''"
          "\<lparr>ok = False, status = 404, statusText = ''Not Found'', res_text = Inr ''''\<rparr>"]
    by (simp add: n)
  ultimately show ?thesis by simp
qed

section \<open>Properties of the agent loop\<close>

declare processQuery_loop.simps [simp del]

lemma call_tools_shape:
  "call_tools callTool w tus acc = (Inr rs, w', calls) \<Longrightarrow>
     calls = map ToolCall tus \<and> (\<exists>new. rs = acc @ new \<and> map tool_use_id new = map tool_id tus)"
proof (induction tus arbitrary: w acc calls)
  case Nil
  then show ?case by simp
next
  case (Cons t tus)
  from Cons.prems obtain result w1 calls1 where
    c: "callTool w (tool_name t) (tool_input t) = (Inr result, w1)" and
    r: "call_tools callTool w1 tus
          (acc @ [\<lparr>tool_use_id = tool_id t, tr_content = result_text result,
                   is_error = (isError result = Some True)\<rparr>]) = (Inr rs, w', calls1)" and
    e: "calls = ToolCall t # calls1"
    by (auto split: prod.splits sum.splits)
  from Cons.IH [OF r] e show ?case
    by auto
qed

lemma call_tools_no_oracle_call:
  "call_tools callTool w tus acc = (r, w', calls) \<Longrightarrow> filter is_oracle_call calls = []"
  by (induction tus arbitrary: w acc r w' calls) (auto split: prod.splits sum.splits)

lemma call_tools_total:
  "\<forall>w n a. \<exists>e w'. callTool w n a = (Inr e, w') \<Longrightarrow>
     \<exists>rs w' calls. call_tools callTool w tus acc = (Inr rs, w', calls)"
proof (induction tus arbitrary: w acc)
  case Nil
  then show ?case by simp
next
  case (Cons t tus)
  from Cons.prems obtain e w1 where c: "callTool w (tool_name t) (tool_input t) = (Inr e, w1)"
    by blast
  from Cons.IH [OF Cons.prems] obtain rs w' calls where
    "call_tools callTool w1 tus
       (acc @ [\<lparr>tool_use_id = tool_id t, tr_content = result_text e,
                is_error = (isError e = Some True)\<rparr>]) = (Inr rs, w', calls)"
    by blast
  with c show ?case
    by simp
qed

lemma processQuery_loop_cases:
  obtains
    (stop) "\<not> i < MAX_ITERATIONS"
      "processQuery_loop orc callTool i ms w = (Inr ''(reached max iterations)'', w, [])"
  | (oracle_error) e w1 where "i < MAX_ITERATIONS" "orc w ms = (Inl e, w1)"
      "processQuery_loop orc callTool i ms w = (Inl e, w1, [OracleCall ms])"
  | (final) r w1 answer where "i < MAX_ITERATIONS" "orc w ms = (Inr r, w1)"
      "stop_reason r \<noteq> Some ''tool_use'' \<or> stop_reason r = Some ''end_turn''"
      "processQuery_loop orc callTool i ms w = (Inr answer, w1, [OracleCall ms])"
  | (tool_error) r w1 e w2 calls where "i < MAX_ITERATIONS" "orc w ms = (Inr r, w1)"
      "stop_reason r = Some ''tool_use''"
      "call_tools callTool w1 (toolUseBlocks (r_content r)) [] = (Inl e, w2, calls)"
      "processQuery_loop orc callTool i ms w = (Inl e, w2, OracleCall ms # calls)"
  | (continue) r w1 rs w2 calls res w3 evs where "i < MAX_ITERATIONS" "orc w ms = (Inr r, w1)"
      "stop_reason r = Some ''tool_use''"
      "call_tools callTool w1 (toolUseBlocks (r_content r)) [] = (Inr rs, w2, calls)"
      "processQuery_loop orc callTool (Suc i) (ms @ [AssistantTurn (r_content r), ToolResults rs]) w2
         = (res, w3, evs)"
      "processQuery_loop orc callTool i ms w = (res, w3, OracleCall ms # calls @ evs)"
proof (cases "i < MAX_ITERATIONS")
  case False
  then show ?thesis
    using stop by (simp add: processQuery_loop.simps [of orc callTool i ms w])
next
  case lt: True
  obtain x w1 where o: "orc w ms = (x, w1)"
    by (cases "orc w ms")
  show ?thesis
  proof (cases x)
    case (Inl e)
    with lt o show ?thesis
      using oracle_error by (simp add: processQuery_loop.simps [of orc callTool i ms w])
  next
    case (Inr r)
    show ?thesis
    proof (cases "stop_reason r = Some ''end_turn''")
      case True
      with lt o Inr show ?thesis
        using final by (simp add: processQuery_loop.simps [of orc callTool i ms w])
    next
      case ne: False
      show ?thesis
      proof (cases "stop_reason r = Some ''tool_use''")
        case False
        with lt o Inr ne show ?thesis
          using final by (simp add: processQuery_loop.simps [of orc callTool i ms w])
      next
        case tu: True
        obtain y w2 calls where
          c: "call_tools callTool w1 (toolUseBlocks (r_content r)) [] = (y, w2, calls)"
          by (cases "call_tools callTool w1 (toolUseBlocks (r_content r)) []")
        show ?thesis
        proof (cases y)
          case (Inl e)
          with lt o Inr ne tu c show ?thesis
            using tool_error by (simp add: processQuery_loop.simps [of orc callTool i ms w])
        next
          case rs: (Inr rs)
          obtain res w3 evs where
            n: "processQuery_loop orc callTool (Suc i)
                  (ms @ [AssistantTurn (r_content r), ToolResults rs]) w2 = (res, w3, evs)"
            by (cases "processQuery_loop orc callTool (Suc i)
                  (ms @ [AssistantTurn (r_content r), ToolResults rs]) w2")
          with lt o Inr ne tu c rs show ?thesis
            using continue by (simp add: processQuery_loop.simps [of orc callTool i ms w])
        qed
      qed
    qed
  qed
qed

lemma oracle_calls_loop:
  "oracle_calls (snd (snd (processQuery_loop orc callTool i ms w))) \<le> MAX_ITERATIONS - i"
proof (induction "MAX_ITERATIONS - i" arbitrary: i ms w)
  case 0
  then have "\<not> i < MAX_ITERATIONS" by simp
  then show ?case
    by (simp add: processQuery_loop.simps [of orc callTool i ms w] oracle_calls_def)
next
  case (Suc n)
  show ?case
  proof (cases rule: processQuery_loop_cases [of i orc callTool ms w])
    case stop
    then show ?thesis by (simp add: oracle_calls_def)
  next
    case (oracle_error e w1)
    then show ?thesis by (simp add: oracle_calls_def)
  next
    case (final r w1 answer)
    then show ?thesis by (simp add: oracle_calls_def)
  next
    case (tool_error r w1 e w2 calls)
    then show ?thesis
      by (simp add: oracle_calls_def call_tools_no_oracle_call)
  next
    case (continue r w1 rs w2 calls res w3 evs)
    from Suc.hyps(2) have "n = MAX_ITERATIONS - Suc i" by simp
    from Suc.hyps(1) [OF this, of "ms @ [AssistantTurn (r_content r), ToolResults rs]" w2]
    have "oracle_calls evs \<le> MAX_ITERATIONS - Suc i"
      by (simp add: continue)
    with continue show ?thesis
      by (simp add: oracle_calls_def call_tools_no_oracle_call)
  qed
qed

lemma exhaust_loop:
  assumes o: "\<forall>w ms. \<exists>r w'. orc w ms = (Inr r, w') \<and> stop_reason r = Some ''tool_use''"
    and t: "\<forall>w n a. \<exists>e w'. callTool w n a = (Inr e, w')"
  shows "fst (processQuery_loop orc callTool i ms w) = Inr ''(reached max iterations)'' \<and>
         oracle_calls (snd (snd (processQuery_loop orc callTool i ms w))) = MAX_ITERATIONS - i"
proof (induction "MAX_ITERATIONS - i" arbitrary: i ms w)
  case 0
  then have "\<not> i < MAX_ITERATIONS" by simp
  then show ?case
    by (simp add: processQuery_loop.simps [of orc callTool i ms w] oracle_calls_def)
next
  case (Suc n)
  show ?case
  proof (cases rule: processQuery_loop_cases [of i orc callTool ms w])
    case stop
    with Suc.hyps(2) show ?thesis by simp
  next
    case (oracle_error e w1)
    from o obtain r v where "orc w ms = (Inr r, v)"
      by blast
    with oracle_error(2) show ?thesis
      by simp
  next
    case (final r w1 answer)
    from o obtain r' v where "orc w ms = (Inr r', v)" "stop_reason r' = Some ''tool_use''"
      by blast
    with final(2) have "stop_reason r = Some ''tool_use''"
      by simp
    with final(3) show ?thesis
      by simp
  next
    case (tool_error r w1 e w2 calls)
    with call_tools_total [OF t, of w1 "toolUseBlocks (r_content r)" "[]"] show ?thesis
      by auto
  next
    case (continue r w1 rs w2 calls res w3 evs)
    from Suc.hyps(2) have "n = MAX_ITERATIONS - Suc i" by simp
    from Suc.hyps(1) [OF this, of "ms @ [AssistantTurn (r_content r), ToolResults rs]" w2]
    have "res = Inr ''(reached max iterations)'' \<and> oracle_calls evs = MAX_ITERATIONS - Suc i"
      by (simp add: continue)
    with continue show ?thesis
      by (auto simp: oracle_calls_def call_tools_no_oracle_call)
  qed
qed

lemma trace_head:
  "snd (snd (processQuery_loop orc callTool i ms w)) = [] \<or>
   (\<exists>tl. snd (snd (processQuery_loop orc callTool i ms w)) = OracleCall ms # tl)"
  by (cases rule: processQuery_loop_cases [of i orc callTool ms w]) simp_all

lemma split_at_first:
  "xs @ ys = ps @ z # zs \<Longrightarrow> z \<notin> set xs \<Longrightarrow> \<exists>qs. ps = xs @ qs \<and> ys = qs @ z # zs"
proof (induction xs arbitrary: ps)
  case Nil
  then show ?case by simp
next
  case (Cons x xs)
  then show ?case
    by (cases ps) auto
qed

lemma no_oracle_call_in_tool_calls: "OracleCall m \<notin> set (map ToolCall tus)"
  by auto

lemma oracle_call_messages:
  "OracleCall m \<in> set (snd (snd (processQuery_loop orc callTool i ms w))) \<Longrightarrow>
     \<exists>rest. m = ms @ rest \<and> paired rest"
proof (induction "MAX_ITERATIONS - i" arbitrary: i ms w)
  case 0
  then have "\<not> i < MAX_ITERATIONS" by simp
  with "0.prems" show ?case
    by (simp add: processQuery_loop.simps [of orc callTool i ms w])
next
  case (Suc n)
  show ?case
  proof (cases rule: processQuery_loop_cases [of i orc callTool ms w])
    case stop
    with Suc.prems show ?thesis by simp
  next
    case (oracle_error e w1)
    with Suc.prems show ?thesis by simp
  next
    case (final r w1 answer)
    with Suc.prems show ?thesis by simp
  next
    case (tool_error r w1 e w2 calls)
    from call_tools_no_oracle_call [OF tool_error(4)] have "OracleCall m \<notin> set calls"
      by (auto simp: filter_empty_conv)
    with tool_error Suc.prems show ?thesis by simp
  next
    case (continue r w1 rs w2 calls res w3 evs)
    from call_tools_shape [OF continue(4)] have
      calls: "calls = map ToolCall (toolUseBlocks (r_content r))" and
      ids: "map tool_use_id rs = map tool_id (toolUseBlocks (r_content r))"
      by auto
    from Suc.prems continue calls have "m = ms \<or> OracleCall m \<in> set evs"
      by auto
    then show ?thesis
    proof
      assume "m = ms"
      then show ?thesis by simp
    next
      assume m: "OracleCall m \<in> set evs"
      from Suc.hyps(2) have "n = MAX_ITERATIONS - Suc i" by simp
      from Suc.hyps(1) [OF this, of "ms @ [AssistantTurn (r_content r), ToolResults rs]" w2] m
      obtain rest where "m = (ms @ [AssistantTurn (r_content r), ToolResults rs]) @ rest" "paired rest"
        by (auto simp: continue)
      with ids have "m = ms @ (AssistantTurn (r_content r) # ToolResults rs # rest) \<and>
                     paired (AssistantTurn (r_content r) # ToolResults rs # rest)"
        by simp
      then show ?thesis by blast
    qed
  qed
qed

lemma two_oracle_calls:
  "2 \<le> oracle_calls (pre @ OracleCall m1 # mid @ OracleCall m2 # post)"
  by (simp add: oracle_calls_def)

lemma adjacent_oracle_calls:
  "snd (snd (processQuery_loop orc callTool i ms w)) = pre @ OracleCall m1 # mid @ OracleCall m2 # post \<Longrightarrow>
   filter is_oracle_call mid = [] \<Longrightarrow>
     \<exists>c rs. m2 = m1 @ [AssistantTurn c, ToolResults rs] \<and>
            mid = map ToolCall (toolUseBlocks c) \<and>
            map tool_use_id rs = map tool_id (toolUseBlocks c)"
proof (induction "MAX_ITERATIONS - i" arbitrary: i ms w pre)
  case 0
  then have "\<not> i < MAX_ITERATIONS" by simp
  with "0.prems" show ?case
    by (simp add: processQuery_loop.simps [of orc callTool i ms w])
next
  case (Suc n)
  from Suc.prems(1) two_oracle_calls [of pre m1 mid m2 post]
  have two: "2 \<le> oracle_calls (snd (snd (processQuery_loop orc callTool i ms w)))"
    by simp
  show ?case
  proof (cases rule: processQuery_loop_cases [of i orc callTool ms w])
    case stop
    with Suc.prems show ?thesis by simp
  next
    case (oracle_error e w1)
    with two show ?thesis by (simp add: oracle_calls_def)
  next
    case (final r w1 answer)
    with two show ?thesis by (simp add: oracle_calls_def)
  next
    case (tool_error r w1 e w2 calls)
    with two call_tools_no_oracle_call [OF tool_error(4)] show ?thesis
      by (simp add: oracle_calls_def)
  next
    case (continue r w1 rs w2 calls res w3 evs)
    let ?tus = "toolUseBlocks (r_content r)"
    let ?ms2 = "ms @ [AssistantTurn (r_content r), ToolResults rs]"
    from call_tools_shape [OF continue(4)] have
      calls: "calls = map ToolCall ?tus" and
      ids: "map tool_use_id rs = map tool_id ?tus"
      by auto
    from Suc.prems(1) continue calls have
      tr: "OracleCall ms # map ToolCall ?tus @ evs = pre @ OracleCall m1 # mid @ OracleCall m2 # post"
      by simp
    have evs: "evs = snd (snd (processQuery_loop orc callTool (Suc i) ?ms2 w2))"
      by (simp add: continue)
    from Suc.hyps(2) have n: "n = MAX_ITERATIONS - Suc i" by simp
    show ?thesis
    proof (cases pre)
      case Nil
      with tr have m1: "m1 = ms" and
        e: "map ToolCall ?tus @ evs = mid @ OracleCall m2 # post"
        by simp_all
      from split_at_first [OF e no_oracle_call_in_tool_calls] obtain qs where
        q: "mid = map ToolCall ?tus @ qs" "evs = qs @ OracleCall m2 # post"
        by blast
      from trace_head [of orc callTool "Suc i" ?ms2 w2] q(2) evs obtain tl where
        h: "qs @ OracleCall m2 # post = OracleCall ?ms2 # tl"
        by auto
      have "qs = []"
      proof (cases qs)
        case Nil
        then show ?thesis .
      next
        case (Cons a as)
        with h have "a = OracleCall ?ms2" by simp
        with Cons q(1) Suc.prems(2) show ?thesis by simp
      qed
      with h q m1 ids show ?thesis by simp
    next
      case (Cons a pre')
      with tr have e: "map ToolCall ?tus @ evs = pre' @ OracleCall m1 # mid @ OracleCall m2 # post"
        by simp
      from split_at_first [OF e no_oracle_call_in_tool_calls] obtain qs where
        "evs = qs @ OracleCall m1 # mid @ OracleCall m2 # post"
        by blast
      with evs have "snd (snd (processQuery_loop orc callTool (Suc i) ?ms2 w2)) =
                       qs @ OracleCall m1 # mid @ OracleCall m2 # post"
        by simp
      from Suc.hyps(1) [OF n this Suc.prems(2)] show ?thesis .
    qed
  qed
qed

lemma call_tools_world:
  "call_tools callTool w tus acc = (Inr rs, w', calls) \<Longrightarrow>
     w' = fold (\<lambda>t v. snd (callTool v (tool_name t) (tool_input t))) tus w"
proof (induction tus arbitrary: w acc calls)
  case Nil
  then show ?case by simp
next
  case (Cons t tus)
  from Cons.prems obtain result w1 calls1 where
    c: "callTool w (tool_name t) (tool_input t) = (Inr result, w1)" and
    r: "call_tools callTool w1 tus
          (acc @ [\<lparr>tool_use_id = tool_id t, tr_content = result_text result,
                   is_error = (isError result = Some True)\<rparr>]) = (Inr rs, w', calls1)"
    by (auto split: prod.splits sum.splits)
  from Cons.IH [OF r] c show ?case
    by simp
qed

text \<open>
  Claim C3. In every run of \<open>processQuery\<close>, whatever the oracle and the tools do:
  the conversation given to the oracle at any call is the user's query followed by
  assistant turns, each followed at once by one tool-results message holding one result
  per tool request of that turn, with the request's id, in the order of the requests;
  between two successive oracle calls the loop makes exactly the tool calls of the turn
  it appended, in the order the oracle gave them, and the second call gets the first
  one's conversation with that turn and its results added; and the tool calls of one turn
  run one after the other, each from the world the one before left.
\<close>

theorem processQuery_results_follow_requests:
  "(\<forall>m. OracleCall m \<in> set (snd (snd (processQuery orc callTool w q))) \<longrightarrow>
        (\<exists>rest. m = UserText q # rest \<and> paired rest)) \<and>
   (\<forall>pre m1 mid m2 post.
        snd (snd (processQuery orc callTool w q)) = pre @ OracleCall m1 # mid @ OracleCall m2 # post \<and>
        filter is_oracle_call mid = [] \<longrightarrow>
        (\<exists>c rs. m2 = m1 @ [AssistantTurn c, ToolResults rs] \<and>
                mid = map ToolCall (toolUseBlocks c) \<and>
                map tool_use_id rs = map tool_id (toolUseBlocks c) \<and>
                length rs = length (toolUseBlocks c))) \<and>
   (\<forall>tus w1 rs w2 calls.
        call_tools callTool w1 tus [] = (Inr rs, w2, calls) \<longrightarrow>
        calls = map ToolCall tus \<and> map tool_use_id rs = map tool_id tus \<and>
        w2 = fold (\<lambda>t v. snd (callTool v (tool_name t) (tool_input t))) tus w1)"
proof (intro conjI allI impI)
  fix m
  assume "OracleCall m \<in> set (snd (snd (processQuery orc callTool w q)))"
  then have "OracleCall m \<in> set (snd (snd (processQuery_loop orc callTool 0 [UserText q] w)))"
    by (simp only: processQuery_def)
  from oracle_call_messages [OF this] obtain rest where "m = [UserText q] @ rest" "paired rest"
    by (elim exE conjE)
  then show "\<exists>rest. m = UserText q # rest \<and> paired rest"
    by simp
next
  fix pre m1 mid m2 post
  assume a: "snd (snd (processQuery orc callTool w q)) =
               pre @ OracleCall m1 # mid @ OracleCall m2 # post \<and>
             filter is_oracle_call mid = []"
  from conjunct1 [OF a]
  have t: "snd (snd (processQuery_loop orc callTool 0 [UserText q] w)) =
             pre @ OracleCall m1 # mid @ OracleCall m2 # post"
    by (simp only: processQuery_def)
  from adjacent_oracle_calls [OF t conjunct2 [OF a]] obtain c rs where
    b: "m2 = m1 @ [AssistantTurn c, ToolResults rs]" "mid = map ToolCall (toolUseBlocks c)"
       "map tool_use_id rs = map tool_id (toolUseBlocks c)"
    by (elim exE conjE)
  from b(3) have "length rs = length (toolUseBlocks c)"
    by (rule map_eq_imp_length_eq)
  with b have "m2 = m1 @ [AssistantTurn c, ToolResults rs] \<and>
                mid = map ToolCall (toolUseBlocks c) \<and>
                map tool_use_id rs = map tool_id (toolUseBlocks c) \<and>
                length rs = length (toolUseBlocks c)"
    by simp
  then show "\<exists>c rs. m2 = m1 @ [AssistantTurn c, ToolResults rs] \<and>
                mid = map ToolCall (toolUseBlocks c) \<and>
                map tool_use_id rs = map tool_id (toolUseBlocks c) \<and>
                length rs = length (toolUseBlocks c)"
    by (intro exI)
next
  fix tus w1 rs w2 calls
  assume c: "call_tools callTool w1 tus [] = (Inr rs, w2, calls)"
  from call_tools_shape [OF c] show "calls = map ToolCall tus"
    by simp
  from call_tools_shape [OF c] show "map tool_use_id rs = map tool_id tus"
    by auto
  from call_tools_world [OF c]
  show "w2 = fold (\<lambda>t v. snd (callTool v (tool_name t) (tool_input t))) tus w1" .
qed

theorem processQuery_results_follow_requests_witness:
  "snd (snd (processQuery weather_oracle counting_tool 0 ''q'')) =
     [OracleCall [UserText ''q''],
      ToolCall \<lparr>tool_id = ''a'', tool_name = ''get_weather'', tool_input = ''London''\<rparr>,
      ToolCall \<lparr>tool_id = ''b'', tool_name = ''get_weather'', tool_input = ''Paris''\<rparr>,
      OracleCall
        [UserText ''q'', AssistantTurn (r_content two_requests),
         ToolResults [\<lparr>tool_use_id = ''a'', tr_content = ''0'', is_error = False\<rparr>,
                      \<lparr>tool_use_id = ''b'', tr_content = ''1'', is_error = False\<rparr>]]] \<and>
   paired
     [AssistantTurn (r_content two_requests),
      ToolResults [\<lparr>tool_use_id = ''a'', tr_content = ''0'', is_error = False\<rparr>,
                   \<lparr>tool_use_id = ''b'', tr_content = ''1'', is_error = False\<rparr>]] \<and>
   (\<exists>c rs.
      [UserText ''q'', AssistantTurn (r_content two_requests),
       ToolResults [\<lparr>tool_use_id = ''a'', tr_content = ''0'', is_error = False\<rparr>,
                    \<lparr>tool_use_id = ''b'', tr_content = ''1'', is_error = False\<rparr>]] =
        [UserText ''q''] @ [AssistantTurn c, ToolResults rs] \<and>
      [ToolCall \<lparr>tool_id = ''a'', tool_name = ''get_weather'', tool_input = ''London''\<rparr>,
       ToolCall \<lparr>tool_id = ''b'', tool_name = ''get_weather'', tool_input = ''Paris''\<rparr>] =
        map ToolCall (toolUseBlocks c) \<and>
      map tool_use_id rs = map tool_id (toolUseBlocks c) \<and>
      length rs = length (toolUseBlocks c)) \<and>
   (2 :: nat) =
     fold (\<lambda>t v. snd (counting_tool v (tool_name t) (tool_input t)))
       (toolUseBlocks (r_content two_requests)) 0"
proof -
  let ?m = "[UserText ''q'', AssistantTurn (r_content two_requests),
             ToolResults [\<lparr>tool_use_id = ''a'', tr_content = ''0'', is_error = False\<rparr>,
                          \<lparr>tool_use_id = ''b'', tr_content = ''1'', is_error = False\<rparr>]]"
  let ?calls =
    "[ToolCall \<lparr>tool_id = ''a'', tool_name = ''get_weather'', tool_input = ''London''\<rparr>,
      ToolCall \<lparr>tool_id = ''b'', tool_name = ''get_weather'', tool_input = ''Paris''\<rparr>]"
  let ?rs = "[\<lparr>tool_use_id = ''a'', tr_content = ''0'', is_error = False\<rparr>,
              \<lparr>tool_use_id = ''b'', tr_content = ''1'', is_error = False\<rparr>]"
  note th = processQuery_results_follow_requests [of weather_oracle counting_tool 0 "''q''"]
  have t: "snd (snd (processQuery weather_oracle counting_tool 0 ''q'')) =
             [OracleCall [UserText ''q''],
              ToolCall \<lparr>tool_id = ''a'', tool_name = ''get_weather'', tool_input = ''London''\<rparr>,
              ToolCall \<lparr>tool_id = ''b'', tool_name = ''get_weather'', tool_input = ''Paris''\<rparr>,
              OracleCall ?m]"
    by code_simp
  have i: "OracleCall ?m \<in> set (snd (snd (processQuery weather_oracle counting_tool 0 ''q'')))"
    by (simp add: t)
  from mp [OF spec [OF conjunct1 [OF th]] i]
  obtain rest where "?m = UserText ''q'' # rest" "paired rest"
    by (elim exE conjE)
  then have p: "paired [AssistantTurn (r_content two_requests), ToolResults ?rs]"
    by simp
  have s: "snd (snd (processQuery weather_oracle counting_tool 0 ''q'')) =
             [] @ OracleCall [UserText ''q''] # ?calls @ OracleCall ?m # [] \<and>
           filter is_oracle_call ?calls = []"
    by (simp add: t)
  note a = mp [OF spec [OF spec [OF spec [OF spec [OF spec
                 [OF conjunct1 [OF conjunct2 [OF th]]]]]]] s]
  have c: "call_tools counting_tool 0 (toolUseBlocks (r_content two_requests)) [] =
             (Inr ?rs, 2, ?calls)"
    by code_simp
  note w = conjunct2 [OF conjunct2
             [OF mp [OF spec [OF spec [OF spec [OF spec [OF spec
                   [OF conjunct2 [OF conjunct2 [OF th]]]]]]] c]]]
  show ?thesis
    by (rule conjI [OF t conjI [OF p conjI [OF a w]]])
qed

text \<open>
  Claim C4. No run of \<open>processQuery\<close> calls the oracle more than 10 times. When the
  oracle asks for tools at every call and no tool call is rejected, the run makes
  exactly 10 oracle calls and then returns, as a normal result and not as an error, the
  fixed text \<open>(reached max iterations)\<close>.
\<close>

theorem processQuery_iteration_ceiling:
  "oracle_calls (snd (snd (processQuery orc callTool w q))) \<le> 10 \<and>
   ((\<forall>v ms. \<exists>r v'. orc v ms = (Inr r, v') \<and> stop_reason r = Some ''tool_use'') \<and>
    (\<forall>v n a. \<exists>e v'. callTool v n a = (Inr e, v')) \<longrightarrow>
      fst (processQuery orc callTool w q) = Inr ''(reached max iterations)'' \<and>
      oracle_calls (snd (snd (processQuery orc callTool w q))) = 10)"
proof -
  have "oracle_calls (snd (snd (processQuery orc callTool w q))) \<le> 10"
    using oracle_calls_loop [of orc callTool 0 "[UserText q]" w]
    by (simp add: processQuery_def MAX_ITERATIONS_def)
  moreover have
    "fst (processQuery orc callTool w q) = Inr ''(reached max iterations)'' \<and>
     oracle_calls (snd (snd (processQuery orc callTool w q))) = 10"
    if "\<forall>v ms. \<exists>r v'. orc v ms = (Inr r, v') \<and> stop_reason r = Some ''tool_use''"
      and "\<forall>v n a. \<exists>e v'. callTool v n a = (Inr e, v')"
    using exhaust_loop [OF that, of 0 "[UserText q]" w]
    by (simp add: processQuery_def MAX_ITERATIONS_def)
  ultimately show ?thesis
    by blast
qed

theorem processQuery_iteration_ceiling_witness:
  "fst (processQuery (always two_requests) counting_tool 0 ''q'') = Inr ''(reached max iterations)'' \<and>
   oracle_calls (snd (snd (processQuery (always two_requests) counting_tool 0 ''q''))) = 10"
proof -
  have o: "\<forall>v ms. \<exists>r v'. always two_requests (v :: nat) ms = (Inr r, v') \<and>
             stop_reason r = Some ''tool_use''"
    by (simp add: always_def two_requests_def)
  have t: "\<forall>v n a. \<exists>e v'. counting_tool v n a = (Inr e, v')"
    by (simp add: counting_tool_def)
  from processQuery_iteration_ceiling [of "always two_requests" counting_tool 0 "''q''"] o t
  show ?thesis
    by blast
qed

text \<open>
  Claim C6, as the code has it. When the oracle's response has the stop reason
  \<open>end_turn\<close>, at whatever round of the loop, \<open>processQuery\<close> returns the text blocks of
  that response joined with a newline between one block and the next, and the fixed text
  \<open>(no text response)\<close> when that is empty. With at most one text block the joined
  text is the plain concatenation. In the scenario of the specification the result is
  \<open>Added Dune.\<close>
\<close>

theorem processQuery_end_turn:
  "(i < MAX_ITERATIONS \<and> orc w ms = (Inr r, w') \<and> stop_reason r = Some ''end_turn'' \<longrightarrow>
      processQuery_loop orc callTool i ms w =
        (Inr (or_else (join newline (textBlocks (r_content r))) ''(no text response)''), w',
         [OracleCall ms])) \<and>
   (orc w [UserText q] = (Inr r, w') \<and> stop_reason r = Some ''end_turn'' \<longrightarrow>
      fst (processQuery orc callTool w q) =
        Inr (or_else (join newline (textBlocks (r_content r))) ''(no text response)'')) \<and>
   (length (textBlocks (r_content r)) \<le> 1 \<longrightarrow>
      join newline (textBlocks (r_content r)) = concat (textBlocks (r_content r))) \<and>
   fst (processQuery dune_oracle dune_tool 0 ''Add Dune'') = Inr ''Added Dune.''"
proof -
  have a: "processQuery_loop orc callTool i ms w =
        (Inr (or_else (join newline (textBlocks (r_content r))) ''(no text response)''), w',
         [OracleCall ms])"
    if "i < MAX_ITERATIONS" "orc w ms = (Inr r, w')" "stop_reason r = Some ''end_turn''" for i ms
    using that by (simp add: processQuery_loop.simps [of orc callTool i ms w])
  have b: "fst (processQuery orc callTool w q) =
        Inr (or_else (join newline (textBlocks (r_content r))) ''(no text response)'')"
    if "orc w [UserText q] = (Inr r, w')" "stop_reason r = Some ''end_turn''"
    using a [of 0 "[UserText q]"] that by (simp add: processQuery_def MAX_ITERATIONS_def)
  have c: "join newline ts = concat ts" if "length ts \<le> 1" for ts :: "string list"
    using that by (cases ts) simp_all
  have d: "fst (processQuery dune_oracle dune_tool 0 ''Add Dune'') = Inr ''Added Dune.''"
    by code_simp
  from a b c d show ?thesis
    by blast
qed

theorem processQuery_end_turn_witness:
  "fst (processQuery (always two_texts) no_tool () ''q'') = Inr (''a'' @ newline @ ''b'') \<and>
   processQuery_loop (always two_texts) no_tool 0 [UserText ''q''] () =
     (Inr (''a'' @ newline @ ''b''), (), [OracleCall [UserText ''q'']]) \<and>
   fst (processQuery (always empty_end) no_tool () ''q'') = Inr ''(no text response)'' \<and>
   join newline (textBlocks (r_content empty_end)) = concat (textBlocks (r_content empty_end))"
proof -
  note two = processQuery_end_turn
               [where orc = "always two_texts" and w = "()" and w' = "()" and q = "''q''"
                  and r = two_texts and callTool = no_tool and i = 0 and ms = "[UserText ''q'']"]
  note emp = processQuery_end_turn
               [where orc = "always empty_end" and w = "()" and w' = "()" and q = "''q''"
                  and r = empty_end and callTool = no_tool]
  have j: "or_else (join newline (textBlocks (r_content two_texts))) ''(no text response)'' =
             ''a'' @ newline @ ''b''"
    by (simp add: two_texts_def or_else_def)
  have h1: "0 < MAX_ITERATIONS \<and> always two_texts () [UserText ''q''] = (Inr two_texts, ()) \<and>
            stop_reason two_texts = Some ''end_turn''"
    by (simp add: MAX_ITERATIONS_def always_def two_texts_def)
  have h2: "always two_texts () [UserText ''q''] = (Inr two_texts, ()) \<and>
            stop_reason two_texts = Some ''end_turn''"
    by (simp add: always_def two_texts_def)
  have h3: "always empty_end () [UserText ''q''] = (Inr empty_end, ()) \<and>
            stop_reason empty_end = Some ''end_turn''"
    by (simp add: always_def empty_end_def)
  have h4: "length (textBlocks (r_content empty_end)) \<le> 1"
    by (simp add: empty_end_def)
  have e: "or_else (join newline (textBlocks (r_content empty_end))) ''(no text response)'' =
             ''(no text response)''"
    by (simp add: empty_end_def or_else_def)
  have a: "fst (processQuery (always two_texts) no_tool () ''q'') = Inr (''a'' @ newline @ ''b'')"
    using mp [OF conjunct1 [OF conjunct2 [OF two]] h2] by (simp only: j)
  have b: "processQuery_loop (always two_texts) no_tool 0 [UserText ''q''] () =
             (Inr (''a'' @ newline @ ''b''), (), [OracleCall [UserText ''q'']])"
    using mp [OF conjunct1 [OF two] h1] by (simp only: j)
  have c: "fst (processQuery (always empty_end) no_tool () ''q'') = Inr ''(no text response)''"
    using mp [OF conjunct1 [OF conjunct2 [OF emp]] h3] by (simp only: e)
  note d = mp [OF conjunct1 [OF conjunct2 [OF conjunct2 [OF emp]]] h4]
  show ?thesis
    by (rule conjI [OF a conjI [OF b conjI [OF c d]]])
qed

text \<open>
  Claim C6 as stated fails: a final response with the two text blocks \<open>a\<close> and \<open>b\<close> is
  returned as \<open>a\<close>, a newline, \<open>b\<close>, which is not the concatenation \<open>ab\<close> of its text
  blocks.
\<close>

theorem processQuery_end_turn_counterexample:
  "fst (processQuery (always two_texts) no_tool () ''q'') \<noteq>
     Inr (concat (textBlocks (r_content two_texts)))"
  by code_simp

text \<open>
  Claim C7, as the code has it. A response whose stop reason is neither \<open>end_turn\<close> nor
  \<open>tool_use\<close> ends the query like \<open>end_turn\<close> does, with the same joined text, but with
  a placeholder of its own when there is no text: \<open>(unexpected stop)\<close>. So the result is
  the one the \<open>end_turn\<close> branch gives for the same content exactly when the joined
  text is not empty.
\<close>

theorem processQuery_other_stop:
  "i < MAX_ITERATIONS \<and> orc w ms = (Inr r, w') \<and>
   stop_reason r \<noteq> Some ''end_turn'' \<and> stop_reason r \<noteq> Some ''tool_use'' \<longrightarrow>
     processQuery_loop orc callTool i ms w =
       (Inr (or_else (join newline (textBlocks (r_content r))) ''(unexpected stop)''), w',
        [OracleCall ms]) \<and>
     (orc_end w ms = (Inr r_end, w') \<and> r_content r_end = r_content r \<and>
      stop_reason r_end = Some ''end_turn'' \<longrightarrow>
        (processQuery_loop orc callTool i ms w = processQuery_loop orc_end callTool i ms w
           \<longleftrightarrow> join newline (textBlocks (r_content r)) \<noteq> []))"
proof (intro impI, elim conjE)
  assume i: "i < MAX_ITERATIONS" and o: "orc w ms = (Inr r, w')"
    and ne: "stop_reason r \<noteq> Some ''end_turn''" and nt: "stop_reason r \<noteq> Some ''tool_use''"
  have a: "processQuery_loop orc callTool i ms w =
       (Inr (or_else (join newline (textBlocks (r_content r))) ''(unexpected stop)''), w',
        [OracleCall ms])"
    using i o ne nt by (simp add: processQuery_loop.simps [of orc callTool i ms w])
  have b: "(processQuery_loop orc callTool i ms w = processQuery_loop orc_end callTool i ms w
           \<longleftrightarrow> join newline (textBlocks (r_content r)) \<noteq> [])"
    if "orc_end w ms = (Inr r_end, w')" "r_content r_end = r_content r"
       "stop_reason r_end = Some ''end_turn''"
  proof -
    have "processQuery_loop orc_end callTool i ms w =
       (Inr (or_else (join newline (textBlocks (r_content r))) ''(no text response)''), w',
        [OracleCall ms])"
      using i that by (simp add: processQuery_loop.simps [of orc_end callTool i ms w])
    with a show ?thesis
      by (simp add: or_else_def)
  qed
  from a b show "processQuery_loop orc callTool i ms w =
       (Inr (or_else (join newline (textBlocks (r_content r))) ''(unexpected stop)''), w',
        [OracleCall ms]) \<and>
     (orc_end w ms = (Inr r_end, w') \<and> r_content r_end = r_content r \<and>
      stop_reason r_end = Some ''end_turn'' \<longrightarrow>
        (processQuery_loop orc callTool i ms w = processQuery_loop orc_end callTool i ms w
           \<longleftrightarrow> join newline (textBlocks (r_content r)) \<noteq> []))"
    by blast
qed

theorem processQuery_other_stop_witness:
  "processQuery_loop (always empty_cut) no_tool 0 [UserText ''q''] () =
     (Inr ''(unexpected stop)'', (), [OracleCall [UserText ''q'']]) \<and>
   processQuery_loop (always empty_cut) no_tool 0 [UserText ''q''] () \<noteq>
     processQuery_loop (always empty_end) no_tool 0 [UserText ''q''] ()"
proof -
  have e: "join newline (textBlocks (r_content empty_cut)) = []"
    by (simp add: empty_cut_def)
  have p1: "0 < MAX_ITERATIONS \<and> always empty_cut () [UserText ''q''] = (Inr empty_cut, ()) \<and>
            stop_reason empty_cut \<noteq> Some ''end_turn'' \<and> stop_reason empty_cut \<noteq> Some ''tool_use''"
    by (simp add: MAX_ITERATIONS_def always_def empty_cut_def)
  have p2: "always empty_end () [UserText ''q''] = (Inr empty_end, ()) \<and>
            r_content empty_end = r_content empty_cut \<and> stop_reason empty_end = Some ''end_turn''"
    by (simp add: always_def empty_cut_def empty_end_def)
  note c = mp [OF processQuery_other_stop
                    [where orc = "always empty_cut" and w = "()" and w' = "()"
                       and ms = "[UserText ''q'']" and r = empty_cut and callTool = no_tool
                       and i = 0 and orc_end = "always empty_end" and r_end = empty_end] p1]
  show ?thesis
  proof (rule conjI)
    from conjunct1 [OF c] e
    show "processQuery_loop (always empty_cut) no_tool 0 [UserText ''q''] () =
            (Inr ''(unexpected stop)'', (), [OracleCall [UserText ''q'']])"
      by (simp add: or_else_def)
    from mp [OF conjunct2 [OF c] p2] e
    show "processQuery_loop (always empty_cut) no_tool 0 [UserText ''q''] () \<noteq>
            processQuery_loop (always empty_end) no_tool 0 [UserText ''q''] ()"
      by blast
  qed
qed

text \<open>
  Claim C7 as stated fails: for a response without text the \<open>end_turn\<close> branch returns
  \<open>(no text response)\<close>, and the same content under the stop reason \<open>max_tokens\<close>
  returns \<open>(unexpected stop)\<close>.
\<close>

theorem processQuery_other_stop_counterexample:
  "r_content empty_cut = r_content empty_end \<and>
   fst (processQuery (always empty_cut) no_tool () ''q'') \<noteq>
   fst (processQuery (always empty_end) no_tool () ''q'')"
  by code_simp

section \<open>Properties of seedDatabase\<close>































section \<open>Properties of run_code\<close>







end
